theory Spec2Isabelle
  imports Main "HOL-Library.Sublist"
begin

section \<open>Rule 727: SELECT without DISTINCT followed by DELETE ADJACENT DUPLICATES\<close>

text \<open>
  A shallow embedding of \<^verbatim>\<open>src/app/app.py\<close>. Source text is a \<open>string\<close>; the
  embedding covers ASCII text, which is what the scanned language is written in: the
  character classes below are Python's \<^verbatim>\<open>\s\<close>, \<^verbatim>\<open>\w\<close> and \<^verbatim>\<open>str.lower\<close> on the
  code points below 128, and every other character is taken to be caseless, not a
  word character and not white space.
\<close>

subsection \<open>Characters\<close>

abbreviation nl :: char where
  "nl \<equiv> CHR 0x0A"

text \<open>\<^verbatim>\<open>str.lower\<close> on one character: the 26 capital letters go to their small ones.\<close>

definition lower :: "char \<Rightarrow> char" where
  "lower c =
     (case map_of (zip ''ABCDEFGHIJKLMNOPQRSTUVWXYZ'' ''abcdefghijklmnopqrstuvwxyz'') c of
        Some l \<Rightarrow> l
      | None \<Rightarrow> c)"

text \<open>\<^verbatim>\<open>\w\<close>: letters, digits and the underscore.\<close>

definition is_word :: "char \<Rightarrow> bool" where
  "is_word c \<longleftrightarrow>
     c \<in> set ''abcdefghijklmnopqrstuvwxyzABCDEFGHIJKLMNOPQRSTUVWXYZ0123456789_''"

text \<open>
  \<^verbatim>\<open>\s\<close> of a \<^verbatim>\<open>str\<close> pattern: the characters for which \<^verbatim>\<open>str.isspace\<close> holds, which
  below 128 are tab, line feed, vertical tab, form feed, carriage return, the four
  separators 0x1C to 0x1F and the space.
\<close>

definition is_space :: "char \<Rightarrow> bool" where
  "is_space c \<longleftrightarrow>
     c \<in> set [CHR 0x09, CHR 0x0A, CHR 0x0B, CHR 0x0C, CHR 0x0D,
                CHR 0x1C, CHR 0x1D, CHR 0x1E, CHR 0x1F, CHR 0x20]"

subsection \<open>The regular expressions of the source and Python's matching of them\<close>

text \<open>
  The four patterns use literals (all under the flag \<^verbatim>\<open>(?i)\<close>), the classes \<^verbatim>\<open>\s\<close>,
  \<^verbatim>\<open>\w\<close> and \<^verbatim>\<open>[^.]\<close>, greedy \<^verbatim>\<open>*\<close> and \<^verbatim>\<open>+\<close> on one class, \<^verbatim>\<open>?\<close>, concatenation,
  ordered alternation, named groups and \<^verbatim>\<open>\b\<close>.
\<close>

datatype atom =
    Chr char      \<comment> \<open>a literal character, compared without regard to case\<close>
  | Space         \<comment> \<open>\<^verbatim>\<open>\s\<close>\<close>
  | Word          \<comment> \<open>\<^verbatim>\<open>\w\<close>\<close>
  | NotChr char   \<comment> \<open>\<^verbatim>\<open>[^c]\<close>\<close>

datatype re =
    Eps                   \<comment> \<open>the empty pattern\<close>
  | Atom atom
  | Star atom             \<comment> \<open>greedy \<^verbatim>\<open>*\<close>\<close>
  | Plus atom             \<comment> \<open>greedy \<^verbatim>\<open>+\<close>\<close>
  | Opt re                \<comment> \<open>greedy \<^verbatim>\<open>?\<close>\<close>
  | Seq re re
  | Alt re re             \<comment> \<open>\<^verbatim>\<open>|\<close>, the left branch first\<close>
  | Group string re       \<comment> \<open>\<^verbatim>\<open>(?P<name>...)\<close>\<close>
  | WordB                 \<comment> \<open>\<^verbatim>\<open>\b\<close>\<close>

fun atom_ok :: "atom \<Rightarrow> char \<Rightarrow> bool" where
  "atom_ok (Chr p) c = (lower c = lower p)"
| "atom_ok Space c = is_space c"
| "atom_ok Word c = is_word c"
| "atom_ok (NotChr p) c = (c \<noteq> p)"

text \<open>
  A position in the text being matched: the offset, the character before it (none at
  offset 0) and the text from the offset on. A match result adds the groups captured
  so far, most recent first.
\<close>

type_synonym mpos = "nat \<times> char option \<times> string"
type_synonym groups = "(string \<times> string) list"

fun is_word_opt :: "char option \<Rightarrow> bool" where
  "is_word_opt None = False"
| "is_word_opt (Some c) = is_word c"

fun is_word_hd :: "string \<Rightarrow> bool" where
  "is_word_hd [] = False"
| "is_word_hd (c # cs) = is_word c"

text \<open>
  Python's matcher backtracks: it tries the choices of a pattern in a fixed order and
  takes the first way that makes the whole pattern match. \<open>rmatch r p\<close> lists, in that
  order, every position at which a match of \<open>r\<close> begun at \<open>p\<close> can end; the head of the
  list is the match Python reports.
\<close>

fun star :: "atom \<Rightarrow> mpos \<Rightarrow> mpos list" where
  "star a (i, prev, []) = [(i, prev, [])]"
| "star a (i, prev, c # cs) =
     (if atom_ok a c then star a (Suc i, Some c, cs) @ [(i, prev, c # cs)]
      else [(i, prev, c # cs)])"

fun step :: "atom \<Rightarrow> mpos \<Rightarrow> mpos list" where
  "step a (i, prev, []) = []"
| "step a (i, prev, c # cs) = (if atom_ok a c then [(Suc i, Some c, cs)] else [])"

fun rmatch :: "re \<Rightarrow> mpos \<times> groups \<Rightarrow> (mpos \<times> groups) list" where
  "rmatch Eps pg = [pg]"
| "rmatch (Atom a) (p, g) = map (\<lambda>q. (q, g)) (step a p)"
| "rmatch (Star a) (p, g) = map (\<lambda>q. (q, g)) (star a p)"
| "rmatch (Plus a) (p, g) = map (\<lambda>q. (q, g)) (concat (map (star a) (step a p)))"
| "rmatch (Opt r) pg = rmatch r pg @ [pg]"
| "rmatch (Seq r1 r2) pg = concat (map (rmatch r2) (rmatch r1 pg))"
| "rmatch (Alt r1 r2) pg = rmatch r1 pg @ rmatch r2 pg"
| "rmatch (Group n r) ((i, prev, cs), g) =
     map (\<lambda>((j, prev', cs'), g'). ((j, prev', cs'), (n, take (j - i) cs) # g'))
       (rmatch r ((i, prev, cs), g))"
| "rmatch WordB ((i, prev, cs), g) =
     (if is_word_opt prev \<noteq> is_word_hd cs then [((i, prev, cs), g)] else [])"

text \<open>A match object: \<^verbatim>\<open>m.start()\<close>, \<^verbatim>\<open>m.end()\<close>, \<^verbatim>\<open>m.group(0)\<close> and the groups.\<close>

record rematch =
  m_start :: nat
  m_end :: nat
  m_text :: string
  m_groups :: groups

text \<open>
  \<^verbatim>\<open>pattern.match\<close> at one position: the match object, and the position at which the
  match ends.
\<close>

fun match_here :: "re \<Rightarrow> mpos \<Rightarrow> (rematch \<times> mpos) option" where
  "match_here r (i, prev, cs) =
     (case rmatch r ((i, prev, cs), []) of
        [] \<Rightarrow> None
      | ((j, prev', cs'), g) # _ \<Rightarrow>
          Some (\<lparr>m_start = i, m_end = j, m_text = take (j - i) cs, m_groups = g\<rparr>,
                (j, prev', cs')))"

text \<open>\<^verbatim>\<open>pattern.search\<close> from a position: the leftmost offset at which a match begins.\<close>

fun search_from :: "re \<Rightarrow> mpos \<Rightarrow> (rematch \<times> mpos) option" where
  "search_from r (i, prev, []) = match_here r (i, prev, [])"
| "search_from r (i, prev, c # cs) =
     (case match_here r (i, prev, c # cs) of
        Some m \<Rightarrow> Some m
      | None \<Rightarrow> search_from r (Suc i, Some c, cs))"

definition search :: "re \<Rightarrow> string \<Rightarrow> rematch option" where
  "search r text = map_option fst (search_from r (0, None, text))"

text \<open>
  \<^verbatim>\<open>pattern.finditer\<close>: the matches from left to right, each search beginning where the
  match before it ended. No pattern of the source matches the empty string
  (\<open>finditer_select_spans\<close> and \<open>finditer_delete_spans\<close> below), so a match always
  leaves less text than the search began with, and the rule Python has for going on
  after an empty match is not modelled: the iteration ends there.
\<close>

function finditer_from :: "re \<Rightarrow> mpos \<Rightarrow> rematch list" where
  "finditer_from r (i, prev, cs) =
     (case search_from r (i, prev, cs) of
        None \<Rightarrow> []
      | Some (m, (j, prev', cs')) \<Rightarrow>
          m # (if length cs' < length cs then finditer_from r (j, prev', cs') else []))"
  by pat_completeness auto
termination
  by (relation "measure (\<lambda>(r, (i, prev, cs)). length cs)") auto

definition finditer :: "re \<Rightarrow> string \<Rightarrow> rematch list" where
  "finditer r text = finditer_from r (0, None, text)"

subsubsection \<open>The patterns\<close>

fun seqs :: "re list \<Rightarrow> re" where
  "seqs [] = Eps"
| "seqs [r] = r"
| "seqs (r # rs) = Seq r (seqs rs)"

definition lit :: "string \<Rightarrow> re" where
  "lit s = seqs (map (\<lambda>c. Atom (Chr c)) s)"

text \<open>\<^verbatim>\<open>STMT_SELECT_RE = re.compile(r"(?is)\bSELECT\b[^.]*\.", re.DOTALL)\<close>\<close>

definition STMT_SELECT_RE :: re where
  "STMT_SELECT_RE =
     seqs [WordB, lit ''SELECT'', WordB, Star (NotChr CHR ''.''), Atom (Chr CHR ''.'')]"

text \<open>\<^verbatim>\<open>SELECT_DISTINCT_RE = re.compile(r"(?i)\bSELECT\b\s+DISTINCT\b")\<close>\<close>

definition SELECT_DISTINCT_RE :: re where
  "SELECT_DISTINCT_RE =
     seqs [WordB, lit ''SELECT'', WordB, Plus Space, lit ''DISTINCT'', WordB]"

text \<open>
  \<^verbatim>\<open>TARGET_ITAB_TOKEN\<close>, read under \<^verbatim>\<open>re.VERBOSE\<close> (white space and comments of the
  pattern dropped):
  \<^verbatim>\<open>@?\s*(?:DATA\s*\(\s*(?P<data>\w+)\s*\)|<\s*(?P<fs>\w+)\s*>|\(\s*(?P<dyn>\w+)\s*\)|(?P<plain>\w+))\<close>
\<close>

definition TARGET_ITAB_TOKEN :: re where
  "TARGET_ITAB_TOKEN =
     seqs [Opt (Atom (Chr CHR ''@'')), Star Space,
       Alt (seqs [lit ''DATA'', Star Space, Atom (Chr CHR ''(''), Star Space,
                  Group ''data'' (Plus Word), Star Space, Atom (Chr CHR '')'')])
      (Alt (seqs [Atom (Chr CHR ''<''), Star Space,
                  Group ''fs'' (Plus Word), Star Space, Atom (Chr CHR ''>'')])
      (Alt (seqs [Atom (Chr CHR ''(''), Star Space,
                  Group ''dyn'' (Plus Word), Star Space, Atom (Chr CHR '')'')])
           (Group ''plain'' (Plus Word))))]"

text \<open>
  \<^verbatim>\<open>INTO_TABLE_ITAB_RE\<close>:
  \<^verbatim>\<open>\bINTO\s+(?:(?:CORRESPONDING\s+FIELDS\s+OF\s+)?TABLE|APPENDING\s+TABLE)\s+\<close>
  followed by the target token.
\<close>

definition INTO_TABLE_ITAB_RE :: re where
  "INTO_TABLE_ITAB_RE =
     seqs [WordB, lit ''INTO'', Plus Space,
       Alt (seqs [Opt (seqs [lit ''CORRESPONDING'', Plus Space, lit ''FIELDS'', Plus Space,
                             lit ''OF'', Plus Space]),
                  lit ''TABLE''])
           (seqs [lit ''APPENDING'', Plus Space, lit ''TABLE'']),
       Plus Space, TARGET_ITAB_TOKEN]"

text \<open>
  \<^verbatim>\<open>STMT_DELETE_DUP_RE\<close>: \<^verbatim>\<open>\bDELETE\s+ADJACENT\s+DUPLICATES\s+FROM\s+\<close>, the target
  token, then \<^verbatim>\<open>[^.]*\.\<close>
\<close>

definition STMT_DELETE_DUP_RE :: re where
  "STMT_DELETE_DUP_RE =
     seqs [WordB, lit ''DELETE'', Plus Space, lit ''ADJACENT'', Plus Space,
           lit ''DUPLICATES'', Plus Space, lit ''FROM'', Plus Space,
           TARGET_ITAB_TOKEN, Star (NotChr CHR ''.''), Atom (Chr CHR ''.'')]"

subsection \<open>Models\<close>

record Finding =
  prog_name :: "string option"
  incl_name :: "string option"
  types :: "string option"
  blockname :: "string option"
  starting_line :: "int option"
  ending_line :: "int option"
  issues_type :: "string option"
  severity :: "string option"
  message :: "string option"
  suggestion :: "string option"
  snippet :: "string option"

record Unit =
  pgm_name :: string
  inc_name :: string
  type :: string
  name :: "string option"
  start_line :: "int option"
  end_line :: "int option"
  code :: "string option"
  findings :: "Finding list option"

subsection \<open>Helpers\<close>

text \<open>\<^verbatim>\<open>return raw.lower() if raw else None\<close>: the empty string is false as well.\<close>

fun canon_name :: "string option \<Rightarrow> string option" where
  "canon_name None = None"
| "canon_name (Some raw) = (if raw = [] then None else Some (map lower raw))"

text \<open>
  \<^verbatim>\<open>m.groupdict().get(n)\<close> is the text of group \<open>n\<close>, or \<^verbatim>\<open>None\<close> for a group that took no
  part in the match; the first value that is neither \<^verbatim>\<open>None\<close> nor empty is returned.
\<close>

fun coalesce_group :: "rematch \<Rightarrow> string list \<Rightarrow> string option" where
  "coalesce_group m [] = None"
| "coalesce_group m (n # names) =
     (case map_of (m_groups m) n of
        Some val \<Rightarrow> if val \<noteq> [] then Some val else coalesce_group m names
      | None \<Rightarrow> coalesce_group m names)"

text \<open>
  \<^verbatim>\<open>text.rfind("\n", 0, hi)\<close> and \<^verbatim>\<open>text.find("\n", lo)\<close> for offsets that are not negative:
  the last index below \<open>hi\<close>, and the first index from \<open>lo\<close> on, or -1.
\<close>

definition str_rfind :: "string \<Rightarrow> char \<Rightarrow> nat \<Rightarrow> int" where
  "str_rfind text c hi =
     (let pre = take hi text
      in if c \<in> set pre
         then int (length pre - 1 - length (takeWhile (\<lambda>x. x \<noteq> c) (rev pre)))
         else - 1)"

definition str_find :: "string \<Rightarrow> char \<Rightarrow> nat \<Rightarrow> int" where
  "str_find text c lo =
     (let post = drop lo text
      in if c \<in> set post
         then int (lo + length (takeWhile (\<lambda>x. x \<noteq> c) post))
         else - 1)"

text \<open>
  \<^verbatim>\<open>text[a:b]\<close>: a negative index counts from the end, and both are clipped to the text.
\<close>

definition slice_index :: "nat \<Rightarrow> int \<Rightarrow> nat" where
  "slice_index n i = (if i < 0 then nat (max 0 (int n + i)) else min n (nat i))"

definition py_slice :: "string \<Rightarrow> int \<Rightarrow> int \<Rightarrow> string" where
  "py_slice text a b =
     (let lo = slice_index (length text) a; hi = slice_index (length text) b
      in take (hi - lo) (drop lo text))"

definition get_line_snippet :: "string \<Rightarrow> nat \<Rightarrow> nat \<Rightarrow> string" where
  "get_line_snippet text start end' =
     (let line_start = str_rfind text nl start;
          line_start = (if line_start = - 1 then 0 else line_start + 1);
          line_end = str_find text nl end';
          line_end = (if line_end = - 1 then int (length text) else line_end)
      in py_slice text line_start line_end)"

text \<open>\<^verbatim>\<open>s.count("\n")\<close> and \<^verbatim>\<open>s.replace("\n", "\\n")\<close>.\<close>

definition count_nl :: "string \<Rightarrow> int" where
  "count_nl s = int (length (filter (\<lambda>c. c = nl) s))"

definition escape_nl :: "string \<Rightarrow> string" where
  "escape_nl s = concat (map (\<lambda>c. if c = nl then [CHR 0x5C, CHR ''n''] else [c]) s)"

subsection \<open>Scanner\<close>

text \<open>
  An entry of the list \<^verbatim>\<open>selects\<close>: the dictionary with the keys \<^verbatim>\<open>"itab"\<close>, \<^verbatim>\<open>"start"\<close>,
  \<^verbatim>\<open>"end"\<close>, \<^verbatim>\<open>"has_distinct"\<close> and \<^verbatim>\<open>"stmt"\<close>.
\<close>

record select =
  s_itab :: string
  s_start :: nat
  s_end :: nat
  s_has_distinct :: bool
  s_stmt :: string

text \<open>The first loop of \<^verbatim>\<open>scan_unit\<close>, over \<^verbatim>\<open>STMT_SELECT_RE.finditer(src)\<close>.\<close>

fun collect_selects :: "rematch list \<Rightarrow> select list" where
  "collect_selects [] = []"
| "collect_selects (m # ms) =
     (let sel_stmt = m_text m
      in case search INTO_TABLE_ITAB_RE sel_stmt of
           None \<Rightarrow> collect_selects ms
         | Some itab_match \<Rightarrow>
             (case canon_name (coalesce_group itab_match [''data'', ''fs'', ''dyn'', ''plain'']) of
                None \<Rightarrow> collect_selects ms
              | Some target_name \<Rightarrow>
                  \<lparr>s_itab = target_name, s_start = m_start m, s_end = m_end m,
                   s_has_distinct = (search SELECT_DISTINCT_RE sel_stmt \<noteq> None),
                   s_stmt = sel_stmt\<rparr> # collect_selects ms))"

text \<open>
  \<^verbatim>\<open>build_finding_for_pair\<close>, with the variables of \<^verbatim>\<open>scan_unit\<close> it closes over
  (\<^verbatim>\<open>unit\<close>, \<^verbatim>\<open>src\<close>, \<^verbatim>\<open>base_start\<close>) as arguments.
\<close>

definition build_finding_for_pair ::
  "Unit \<Rightarrow> string \<Rightarrow> int \<Rightarrow> string \<Rightarrow> nat \<Rightarrow> nat \<Rightarrow> nat \<Rightarrow> nat \<Rightarrow> Finding" where
  "build_finding_for_pair unit src base_start itab_name select_start select_end
       delete_start delete_end =
     (let stmt_start = select_start;
          stmt_end = select_end;
          line_in_block = count_nl (take stmt_start src) + 1;
          snippet_line = get_line_snippet src stmt_start stmt_end;
          snippet_line_count = count_nl snippet_line + 1;
          starting_line_abs = base_start + line_in_block;
          ending_line_abs = base_start + line_in_block + snippet_line_count;
          msg = ''SELECT fills '' @ [CHR 0x27] @ itab_name @ [CHR 0x27]
                @ '' followed by DELETE ADJACENT DUPLICATES. ''
                @ ''Prefer SELECT DISTINCT.'';
          suggestion =
            ''* Replace the SELECT that fills '' @ [CHR 0x60] @ itab_name @ [CHR 0x60]
            @ '' with DISTINCT and '' @ ''remove the DELETE step.'' @ [nl, nl]
            @ ''Example rewrite:'' @ [nl]
            @ ''  SELECT DISTINCT ...'' @ [nl]
            @ ''    INTO TABLE '' @ itab_name @ ''.'' @ [nl]
            @ ''  '' @ [CHR 0x22] @ '' DELETE ADJACENT DUPLICATES FROM '' @ itab_name
            @ ''.  '' @ [CHR 0x22] @ '' <-- remove'' @ [nl]
      in \<lparr>prog_name = Some (pgm_name unit),
          incl_name = Some (inc_name unit),
          types = Some (type unit),
          blockname = name unit,
          starting_line = Some starting_line_abs,
          ending_line = Some ending_line_abs,
          issues_type = Some ''UseSelectDistinct'',
          severity = Some ''error'',
          message = Some msg,
          suggestion = Some suggestion,
          snippet = Some (escape_nl snippet_line)\<rparr>)"

text \<open>
  The inner loop \<^verbatim>\<open>for s in selects\<close>, with \<^verbatim>\<open>prior\<close> as the accumulator: the most recent
  earlier \<^verbatim>\<open>SELECT\<close> that filled the same canonical name.
\<close>

fun find_prior :: "select list \<Rightarrow> string \<Rightarrow> nat \<Rightarrow> select option \<Rightarrow> select option" where
  "find_prior [] d_itab d_start prior = prior"
| "find_prior (s # selects) d_itab d_start prior =
     find_prior selects d_itab d_start
       (if s_itab s = d_itab \<and> s_end s < d_start
        then (case prior of
                None \<Rightarrow> Some s
              | Some p \<Rightarrow> if s_end s > s_end p then Some s else prior)
        else prior)"

text \<open>
  The body of the second loop for one match \<open>d\<close> of \<^verbatim>\<open>STMT_DELETE_DUP_RE\<close>: the finding
  it appends, if any.
\<close>

definition delete_step :: "Unit \<Rightarrow> string \<Rightarrow> int \<Rightarrow> select list \<Rightarrow> rematch \<Rightarrow> Finding option" where
  "delete_step unit src base_start selects d =
     (let d_start = m_start d; d_end = m_end d;
          d_raw_name = coalesce_group d [''data'', ''fs'', ''dyn'', ''plain''];
          d_itab = canon_name d_raw_name
      in case d_itab of
           None \<Rightarrow> None
         | Some d_itab \<Rightarrow>
             (case find_prior selects d_itab d_start None of
                None \<Rightarrow> None
              | Some prior \<Rightarrow>
                  if \<not> s_has_distinct prior
                  then Some (build_finding_for_pair unit src base_start d_itab
                               (s_start prior) (s_end prior) d_start d_end)
                  else None))"

fun delete_loop :: "Unit \<Rightarrow> string \<Rightarrow> int \<Rightarrow> select list \<Rightarrow> rematch list \<Rightarrow> Finding list" where
  "delete_loop unit src base_start selects [] = []"
| "delete_loop unit src base_start selects (d # ds) =
     (case delete_step unit src base_start selects d of
        None \<Rightarrow> delete_loop unit src base_start selects ds
      | Some finding \<Rightarrow> finding # delete_loop unit src base_start selects ds)"

text \<open>\<^verbatim>\<open>unit.code or ""\<close> and \<^verbatim>\<open>unit.start_line or 0\<close>.\<close>

definition unit_src :: "Unit \<Rightarrow> string" where
  "unit_src unit = (case code unit of None \<Rightarrow> [] | Some s \<Rightarrow> s)"

definition unit_base_start :: "Unit \<Rightarrow> int" where
  "unit_base_start unit = (case start_line unit of None \<Rightarrow> 0 | Some n \<Rightarrow> n)"

definition scan_unit :: "Unit \<Rightarrow> Unit" where
  "scan_unit unit =
     (let src = unit_src unit;
          base_start = unit_base_start unit;
          selects = collect_selects (finditer STMT_SELECT_RE src);
          findings = delete_loop unit src base_start selects (finditer STMT_DELETE_DUP_RE src)
      in unit\<lparr>findings := Some findings\<rparr>)"

subsection \<open>Endpoints\<close>

text \<open>
  \<^verbatim>\<open>scan_rule_array\<close>: \<^verbatim>\<open>if res.findings\<close> is false for \<^verbatim>\<open>None\<close> and for the empty list.
\<close>

fun scan_rule_array :: "Unit list \<Rightarrow> Unit list" where
  "scan_rule_array [] = []"
| "scan_rule_array (u # units) =
     (let res = scan_unit u
      in if findings res \<noteq> None \<and> findings res \<noteq> Some []
         then res # scan_rule_array units
         else scan_rule_array units)"

definition scan_rule_single :: "Unit \<Rightarrow> Unit" where
  "scan_rule_single unit = scan_unit unit"

subsection \<open>Notions used to state the properties\<close>

text \<open>The two lists \<^verbatim>\<open>scan_unit\<close> works on: the candidates and the deduplication matches.\<close>

definition unit_selects :: "Unit \<Rightarrow> select list" where
  "unit_selects unit = collect_selects (finditer STMT_SELECT_RE (unit_src unit))"

definition unit_deletes :: "Unit \<Rightarrow> rematch list" where
  "unit_deletes unit = finditer STMT_DELETE_DUP_RE (unit_src unit)"

text \<open>The finding \<^verbatim>\<open>scan_unit\<close> appends for one deduplication match, if any.\<close>

definition unit_step :: "Unit \<Rightarrow> rematch \<Rightarrow> Finding option" where
  "unit_step unit d =
     delete_step unit (unit_src unit) (unit_base_start unit) (unit_selects unit) d"

text \<open>The canonical target of a deduplication match.\<close>

definition d_itab :: "rematch \<Rightarrow> string option" where
  "d_itab d = canon_name (coalesce_group d [''data'', ''fs'', ''dyn'', ''plain''])"

text \<open>
  The candidate the specification pairs with a deduplication statement on target \<open>t\<close>
  that begins at \<open>d_start\<close>: a candidate on the same target that ends before it and,
  among those, ends last.
\<close>

definition nearest_prior :: "select list \<Rightarrow> string \<Rightarrow> nat \<Rightarrow> select \<Rightarrow> bool" where
  "nearest_prior selects t d_start c \<longleftrightarrow>
     c \<in> set selects \<and> s_itab c = t \<and> s_end c < d_start
     \<and> (\<forall>c'\<in>set selects. s_itab c' = t \<and> s_end c' < d_start \<longrightarrow> s_end c' \<le> s_end c)"

text \<open>A candidate that the inner loop of \<^verbatim>\<open>scan_unit\<close> takes into account.\<close>

definition eligible :: "string \<Rightarrow> nat \<Rightarrow> select \<Rightarrow> bool" where
  "eligible t d_start s \<longleftrightarrow> s_itab s = t \<and> s_end s < d_start"

text \<open>
  The finding anchored to a candidate; the span of the deduplication statement does not
  enter it (\<open>build_finding_delete_span\<close>).
\<close>

definition anchored :: "Unit \<Rightarrow> select \<Rightarrow> Finding" where
  "anchored unit c =
     build_finding_for_pair unit (unit_src unit) (unit_base_start unit) (s_itab c)
       (s_start c) (s_end c) 0 0"


text \<open>
  The physical line of \<open>text\<close> that holds offset \<open>i\<close>, in the specification's words:
  from the character after the previous newline (or the start of the text) up to the
  next newline (or the end of the text). And the lines a span from \<open>s\<close> to \<open>e\<close>
  lies on: from the start of the line of \<open>s\<close> to the first newline at or after \<open>e\<close>.
\<close>

definition line_at :: "string \<Rightarrow> nat \<Rightarrow> string" where
  "line_at text i =
     rev (takeWhile (\<lambda>x. x \<noteq> nl) (rev (take i text))) @ takeWhile (\<lambda>x. x \<noteq> nl) (drop i text)"

definition span_lines :: "string \<Rightarrow> nat \<Rightarrow> nat \<Rightarrow> string" where
  "span_lines text s e =
     rev (takeWhile (\<lambda>x. x \<noteq> nl) (rev (take s text))) @ take (e - s) (drop s text)
     @ takeWhile (\<lambda>x. x \<noteq> nl) (drop e text)"

text \<open>
  For the matcher: \<open>reaches p q\<close> says that \<open>q\<close> is \<open>p\<close> moved forward in the same
  text, and \<open>nonempty r\<close> that the shape of \<open>r\<close> forces a match to take at least one
  character.
\<close>

definition reaches :: "mpos \<Rightarrow> mpos \<Rightarrow> bool" where
  "reaches p q \<longleftrightarrow>
     (\<exists>k. k \<le> length (snd (snd p)) \<and> fst q = fst p + k \<and> snd (snd q) = drop k (snd (snd p)))"

fun nonempty :: "re \<Rightarrow> bool" where
  "nonempty Eps = False"
| "nonempty (Atom a) = True"
| "nonempty (Star a) = False"
| "nonempty (Plus a) = True"
| "nonempty (Opt r) = False"
| "nonempty (Seq r1 r2) = (nonempty r1 \<or> nonempty r2)"
| "nonempty (Alt r1 r2) = (nonempty r1 \<and> nonempty r2)"
| "nonempty (Group n r) = nonempty r"
| "nonempty WordB = False"










subsection \<open>Example units\<close>

definition example_unit :: "string \<Rightarrow> int \<Rightarrow> Unit" where
  "example_unit src base =
     \<lparr>pgm_name = ''ZPROG'', inc_name = ''ZINCL'', type = ''FORM'', name = Some ''MAIN'',
      start_line = Some base, end_line = Some (base + 10), code = Some src, findings = None\<rparr>"

definition ex_src :: string where
  "ex_src = ''SELECT * FROM t INTO TABLE @lt_tab.'' @ [nl]
     @ ''DELETE ADJACENT DUPLICATES FROM lt_tab COMPARING ALL FIELDS.''"

definition ex_distinct_src :: string where
  "ex_distinct_src = ''SELECT DISTINCT * FROM t INTO TABLE @lt_tab.'' @ [nl]
     @ ''DELETE ADJACENT DUPLICATES FROM lt_tab COMPARING ALL FIELDS.''"


definition ex_multiline_src :: string where
  "ex_multiline_src = ''SELECT *'' @ [nl] @ ''  FROM t INTO TABLE lt_tab.'' @ [nl]
     @ ''DELETE ADJACENT DUPLICATES FROM lt_tab.''"

definition ex_crossed_src :: string where
  "ex_crossed_src = ''SELECT * FROM t INTO TABLE lt_a.'' @ [nl]
     @ ''SELECT * FROM t INTO TABLE lt_b.'' @ [nl]
     @ ''DELETE ADJACENT DUPLICATES FROM lt_b.'' @ [nl]
     @ ''DELETE ADJACENT DUPLICATES FROM lt_a.''"

definition ex_unit :: Unit where
  "ex_unit = example_unit ex_src 100"

definition ex_select :: select where
  "ex_select = \<lparr>s_itab = ''lt_tab'', s_start = 0, s_end = 35, s_has_distinct = False,
     s_stmt = ''SELECT * FROM t INTO TABLE @lt_tab.''\<rparr>"

definition ex_delete :: rematch where
  "ex_delete = \<lparr>m_start = 36, m_end = 96,
     m_text = ''DELETE ADJACENT DUPLICATES FROM lt_tab COMPARING ALL FIELDS.'',
     m_groups = [(''plain'', ''lt_tab'')]\<rparr>"

definition ex_distinct_unit :: Unit where
  "ex_distinct_unit = example_unit ex_distinct_src 100"

definition ex_distinct_select :: select where
  "ex_distinct_select = \<lparr>s_itab = ''lt_tab'', s_start = 0, s_end = 44, s_has_distinct = True,
     s_stmt = ''SELECT DISTINCT * FROM t INTO TABLE @lt_tab.''\<rparr>"

definition ex_distinct_delete :: rematch where
  "ex_distinct_delete = \<lparr>m_start = 45, m_end = 105,
     m_text = ''DELETE ADJACENT DUPLICATES FROM lt_tab COMPARING ALL FIELDS.'',
     m_groups = [(''plain'', ''lt_tab'')]\<rparr>"





definition ex_multiline_unit :: Unit where
  "ex_multiline_unit = example_unit ex_multiline_src 100"

definition ex_multiline_select :: select where
  "ex_multiline_select = \<lparr>s_itab = ''lt_tab'', s_start = 0, s_end = 36, s_has_distinct = False,
     s_stmt = ''SELECT *'' @ [nl] @ ''  FROM t INTO TABLE lt_tab.''\<rparr>"

definition ex_crossed_unit :: Unit where
  "ex_crossed_unit = example_unit ex_crossed_src 0"






section \<open>Properties\<close>

subsection \<open>The matcher moves forward\<close>

lemma reaches_refl: "reaches p p"
  unfolding reaches_def by (rule exI [of _ 0]) simp

lemma reaches_trans: "reaches p q \<Longrightarrow> reaches q r \<Longrightarrow> reaches p r"
  unfolding reaches_def
  apply (elim exE conjE)
  subgoal for k l
    by (rule exI [of _ "k + l"]) (simp add: add.commute)
  done

lemma reaches_fst: "reaches p q \<Longrightarrow> fst p \<le> fst q"
  by (auto simp: reaches_def)

lemma reaches_length: "reaches p q \<Longrightarrow> fst q + length (snd (snd q)) = fst p + length (snd (snd p))"
  by (auto simp: reaches_def)

lemma reaches_drop: "reaches p q \<Longrightarrow> snd (snd q) = drop (fst q - fst p) (snd (snd p))"
  by (auto simp: reaches_def)

lemma step_reaches: "q \<in> set (step a p) \<Longrightarrow> reaches p q \<and> fst p < fst q"
proof (induction a p rule: step.induct)
  case (1 a i prev)
  then show ?case by simp
next
  case (2 a i prev c cs)
  then show ?case
    unfolding reaches_def by (auto split: if_splits intro: exI [of _ 1])
qed

lemma star_reaches: "q \<in> set (star a p) \<Longrightarrow> reaches p q"
proof (induction a p rule: star.induct)
  case (1 a i prev)
  then show ?case by (simp add: reaches_refl)
next
  case (2 a i prev c cs)
  show ?case
  proof (cases "atom_ok a c \<and> q \<in> set (star a (Suc i, Some c, cs))")
    case True
    then have "reaches (Suc i, Some c, cs) q" using 2 by simp
    moreover have "reaches (i, prev, c # cs) (Suc i, Some c, cs)"
      unfolding reaches_def by (rule exI [of _ 1]) simp
    ultimately show ?thesis by (blast intro: reaches_trans)
  next
    case False
    with 2 have "q = (i, prev, c # cs)" by (auto split: if_splits)
    then show ?thesis by (simp add: reaches_refl)
  qed
qed

lemma rmatch_reaches_all: "\<forall>p g q g'. (q, g') \<in> set (rmatch r (p, g)) \<longrightarrow> reaches p q"
proof (induction r)
  case Eps
  show ?case by (simp add: reaches_refl)
next
  case (Atom a)
  show ?case by (auto dest: step_reaches)
next
  case (Star a)
  show ?case by (auto dest: star_reaches)
next
  case (Plus a)
  show ?case by (auto dest!: step_reaches star_reaches intro: reaches_trans)
next
  case (Opt r)
  show ?case
  proof (intro allI impI)
    fix p g q g'
    assume "(q, g') \<in> set (rmatch (Opt r) (p, g))"
    then have "(q, g') \<in> set (rmatch r (p, g)) \<or> q = p" by auto
    with Opt.IH show "reaches p q" by (blast intro: reaches_refl)
  qed
next
  case (Seq r1 r2)
  show ?case
  proof (intro allI impI)
    fix p g q g'
    assume "(q, g') \<in> set (rmatch (Seq r1 r2) (p, g))"
    then obtain p' h where "(p', h) \<in> set (rmatch r1 (p, g))"
      and "(q, g') \<in> set (rmatch r2 (p', h))" by auto
    with Seq.IH show "reaches p q" by (blast intro: reaches_trans)
  qed
next
  case (Alt r1 r2)
  show ?case
  proof (intro allI impI)
    fix p g q g'
    assume "(q, g') \<in> set (rmatch (Alt r1 r2) (p, g))"
    then have "(q, g') \<in> set (rmatch r1 (p, g)) \<or> (q, g') \<in> set (rmatch r2 (p, g))"
      by simp
    with Alt.IH show "reaches p q" by blast
  qed
next
  case (Group n r)
  show ?case
  proof (intro allI impI)
    fix p g q g'
    assume a: "(q, g') \<in> set (rmatch (Group n r) (p, g))"
    obtain i prev cs where p: "p = (i, prev, cs)" by (cases p)
    from a obtain h where "(q, h) \<in> set (rmatch r (p, g))"
      unfolding p by auto
    with Group.IH show "reaches p q" by blast
  qed
next
  case WordB
  show ?case
  proof (intro allI impI)
    fix p g q g'
    assume a: "(q, g') \<in> set (rmatch WordB (p, g))"
    obtain i prev cs where p: "p = (i, prev, cs)" by (cases p)
    from a show "reaches p q" unfolding p by (auto simp: reaches_refl split: if_splits)
  qed
qed

lemma rmatch_reaches: "(q, g') \<in> set (rmatch r (p, g)) \<Longrightarrow> reaches p q"
  using rmatch_reaches_all by blast

lemma rmatch_nonempty_all:
  "nonempty r \<Longrightarrow> \<forall>p g q g'. (q, g') \<in> set (rmatch r (p, g)) \<longrightarrow> fst p < fst q"
proof (induction r)
  case (Atom a)
  show ?case by (auto dest: step_reaches)
next
  case (Plus a)
  show ?case by (auto dest!: step_reaches star_reaches reaches_fst)
next
  case (Seq r1 r2)
  show ?case
  proof (intro allI impI)
    fix p g q g'
    assume "(q, g') \<in> set (rmatch (Seq r1 r2) (p, g))"
    then obtain p' h where 1: "(p', h) \<in> set (rmatch r1 (p, g))"
      and 2: "(q, g') \<in> set (rmatch r2 (p', h))" by auto
    from 1 2 have "fst p \<le> fst p'" "fst p' \<le> fst q"
      by (auto dest!: rmatch_reaches reaches_fst)
    moreover have "fst p < fst p' \<or> fst p' < fst q"
    proof (cases "nonempty r1")
      case True
      from Seq.IH(1) [OF True] 1 show ?thesis by blast
    next
      case False
      then have "nonempty r2" using Seq.prems by simp
      from Seq.IH(2) [OF this] 2 show ?thesis by blast
    qed
    ultimately show "fst p < fst q" by linarith
  qed
next
  case (Alt r1 r2)
  show ?case
  proof (intro allI impI)
    fix p g q g'
    assume "(q, g') \<in> set (rmatch (Alt r1 r2) (p, g))"
    then have "(q, g') \<in> set (rmatch r1 (p, g)) \<or> (q, g') \<in> set (rmatch r2 (p, g))"
      by simp
    moreover from Alt.prems have "nonempty r1" "nonempty r2" by simp_all
    ultimately show "fst p < fst q" using Alt.IH by blast
  qed
next
  case (Group n r)
  show ?case
  proof (intro allI impI)
    fix p g q g'
    assume a: "(q, g') \<in> set (rmatch (Group n r) (p, g))"
    obtain i prev cs where p: "p = (i, prev, cs)" by (cases p)
    from a obtain h where "(q, h) \<in> set (rmatch r (p, g))"
      unfolding p by auto
    moreover from Group have "\<forall>p g q g'. (q, g') \<in> set (rmatch r (p, g)) \<longrightarrow> fst p < fst q"
      by simp
    ultimately show "fst p < fst q" by blast
  qed
qed simp_all

lemma rmatch_nonempty:
  "nonempty r \<Longrightarrow> (q, g') \<in> set (rmatch r (p, g)) \<Longrightarrow> fst p < fst q"
  using rmatch_nonempty_all by blast

lemma match_here_Some:
  assumes "match_here r p = Some (m, q)"
  shows "reaches p q" and "m_start m = fst p" and "m_end m = fst q"
    and "m_text m = take (fst q - fst p) (snd (snd p))"
    and "nonempty r \<Longrightarrow> fst p < fst q"
proof -
  obtain i prev cs where p: "p = (i, prev, cs)" by (cases p)
  from assms obtain g rest where r: "rmatch r (p, []) = (q, g) # rest"
    and m: "m = \<lparr>m_start = i, m_end = fst q, m_text = take (fst q - i) cs, m_groups = g\<rparr>"
    unfolding p by (auto split: list.splits)
  from r have mem: "(q, g) \<in> set (rmatch r (p, []))" by simp
  show "reaches p q" using mem by (rule rmatch_reaches)
  show "m_start m = fst p" "m_end m = fst q" "m_text m = take (fst q - fst p) (snd (snd p))"
    by (simp_all add: m p)
  show "fst p < fst q" if "nonempty r" using that mem by (rule rmatch_nonempty)
qed

lemma search_from_Some:
  "search_from r p = Some (m, q) \<Longrightarrow>
     fst p \<le> m_start m \<and> m_start m \<le> m_end m \<and> m_end m = fst q
     \<and> (nonempty r \<longrightarrow> m_start m < m_end m)
     \<and> fst q + length (snd (snd q)) = fst p + length (snd (snd p))
     \<and> m_text m = take (m_end m - m_start m) (drop (m_start m - fst p) (snd (snd p)))"
proof (induction r p rule: search_from.induct)
  case (1 r i prev)
  from match_here_Some [of r "(i, prev, [])" m q] 1 show ?case
    by (auto dest: reaches_fst reaches_length)
next
  case (2 r i prev c cs)
  show ?case
  proof (cases "match_here r (i, prev, c # cs)")
    case None
    with 2 have s: "search_from r (Suc i, Some c, cs) = Some (m, q)" by simp
    from "2.IH" [OF None s] have ih: "Suc i \<le> m_start m" "m_start m \<le> m_end m" "m_end m = fst q"
      "nonempty r \<longrightarrow> m_start m < m_end m"
      "fst q + length (snd (snd q)) = Suc i + length cs"
      "m_text m = take (m_end m - m_start m) (drop (m_start m - Suc i) cs)"
      by auto
    from ih(1) have "m_start m - i = Suc (m_start m - Suc i)" by simp
    with ih show ?thesis by simp
  next
    case (Some a)
    with 2 have "match_here r (i, prev, c # cs) = Some (m, q)" by simp
    from match_here_Some [OF this] show ?thesis
      by (auto dest: reaches_fst reaches_length)
  qed
qed

lemma search_from_rest:
  "search_from r p = Some (m, q) \<Longrightarrow> snd (snd q) = drop (fst q - fst p) (snd (snd p))"
proof (induction r p rule: search_from.induct)
  case (1 r i prev)
  from match_here_Some(1) [of r "(i, prev, [])" m q] 1 show ?case
    by (auto dest: reaches_drop)
next
  case (2 r i prev c cs)
  show ?case
  proof (cases "match_here r (i, prev, c # cs)")
    case None
    with 2 have s: "search_from r (Suc i, Some c, cs) = Some (m, q)" by simp
    from "2.IH" [OF None s] have "snd (snd q) = drop (fst q - Suc i) cs" by simp
    moreover from search_from_Some [OF s] have "Suc i \<le> fst q" by simp
    then have "fst q - i = Suc (fst q - Suc i)" by simp
    ultimately show ?thesis by simp
  next
    case (Some a)
    with 2 have "match_here r (i, prev, c # cs) = Some (m, q)" by simp
    from match_here_Some(1) [OF this] show ?thesis by (auto dest: reaches_drop)
  qed
qed

subsection \<open>The iteration over the matches\<close>

lemma finditer_select_empty: "finditer STMT_SELECT_RE [] = []"
  by (simp add: finditer_def STMT_SELECT_RE_def lit_def)


declare finditer_from.simps [simp del]

lemma finditer_from_unfold:
  assumes "nonempty r"
  shows "finditer_from r p =
     (case search_from r p of None \<Rightarrow> [] | Some (m, q) \<Rightarrow> m # finditer_from r q)"
proof (cases "search_from r p")
  case None
  then show ?thesis by (cases p) (simp add: finditer_from.simps)
next
  case (Some a)
  obtain m q where a: "a = (m, q)" by (cases a)
  obtain i prev cs where p: "p = (i, prev, cs)" by (cases p)
  obtain j prev' cs' where q: "q = (j, prev', cs')" by (cases q)
  from search_from_Some [of r p m q] Some a assms
  have "length cs' < length cs" by (simp add: p q)
  then show ?thesis using Some unfolding a p q
    by (simp add: finditer_from.simps [of r i prev cs])
qed

lemma finditer_from_spans:
  "nonempty r \<Longrightarrow>
     (\<forall>m\<in>set (finditer_from r p). fst p \<le> m_start m \<and> m_start m < m_end m)
     \<and> sorted_wrt (\<lambda>a b. m_end a \<le> m_start b) (finditer_from r p)"
proof (induction r p rule: finditer_from.induct)
  case (1 r i prev cs)
  show ?case
  proof (cases "search_from r (i, prev, cs)")
    case None
    then show ?thesis by (simp add: finditer_from.simps [of r i prev cs])
  next
    case (Some a)
    obtain m j prev' cs' where a: "a = (m, (j, prev', cs'))" by (cases a) auto
    have s: "search_from r (i, prev, cs) = Some (m, (j, prev', cs'))" using Some a by simp
    from search_from_Some [OF s] "1.prems"
    have f: "i \<le> m_start m" "m_start m < m_end m" "m_end m = j" "length cs' < length cs"
      by auto
    have u: "finditer_from r (i, prev, cs) = m # finditer_from r (j, prev', cs')"
      using s f by (simp add: finditer_from.simps [of r i prev cs])
    from "1.IH" [OF s refl refl refl f(4) "1.prems"]
    have ih: "\<forall>m'\<in>set (finditer_from r (j, prev', cs')). j \<le> m_start m' \<and> m_start m' < m_end m'"
      "sorted_wrt (\<lambda>a b. m_end a \<le> m_start b) (finditer_from r (j, prev', cs'))"
      by simp_all
    show ?thesis unfolding u using f ih by auto
  qed
qed

lemma finditer_from_text:
  "cs = drop i text \<Longrightarrow> i \<le> length text \<Longrightarrow>
     \<forall>m\<in>set (finditer_from r (i, prev, cs)).
       m_end m \<le> length text \<and> m_text m = take (m_end m - m_start m) (drop (m_start m) text)"
proof (induction r "(i, prev, cs)" arbitrary: i prev cs rule: finditer_from.induct)
  case (1 r i prev cs)
  show ?case
  proof (cases "search_from r (i, prev, cs)")
    case None
    then show ?thesis by (simp add: finditer_from.simps [of r i prev cs])
  next
    case (Some a)
    obtain m j prev' cs' where a: "a = (m, (j, prev', cs'))" by (cases a) auto
    have s: "search_from r (i, prev, cs) = Some (m, (j, prev', cs'))" using Some a by simp
    from search_from_Some [OF s] search_from_rest [OF s] "1.prems"
    have f: "i \<le> m_start m" "m_start m \<le> m_end m" "m_end m = j" "j \<le> length text"
      "cs' = drop j text"
      "m_text m = take (m_end m - m_start m) (drop (m_start m) text)"
      by auto
    show ?thesis
    proof (cases "length cs' < length cs")
      case True
      from "1.hyps" [OF s refl refl refl True f(5) f(4)]
      have "\<forall>m\<in>set (finditer_from r (j, prev', cs')).
         m_end m \<le> length text \<and> m_text m = take (m_end m - m_start m) (drop (m_start m) text)" .
      with f s True show ?thesis by (simp add: finditer_from.simps [of r i prev cs])
    next
      case False
      with f s show ?thesis by (simp add: finditer_from.simps [of r i prev cs])
    qed
  qed
qed

lemma finditer_text:
  "m \<in> set (finditer r text) \<Longrightarrow>
     m_end m \<le> length text \<and> m_text m = take (m_end m - m_start m) (drop (m_start m) text)"
  using finditer_from_text [of "text" 0 "text" r None] by (simp add: finditer_def)

lemma nonempty_select: "nonempty STMT_SELECT_RE"
  by (simp add: STMT_SELECT_RE_def lit_def)

lemma nonempty_delete: "nonempty STMT_DELETE_DUP_RE"
  by (simp add: STMT_DELETE_DUP_RE_def lit_def)

text \<open>
  The matches of the two statement patterns are not empty and do not overlap, so the
  iteration is the one of Python: each search begins where the match before it ended.
\<close>

lemma finditer_spans:
  assumes "nonempty r"
  shows "\<forall>m\<in>set (finditer r text). m_start m < m_end m"
    and "sorted_wrt (\<lambda>a b. m_end a \<le> m_start b) (finditer r text)"
  using finditer_from_spans [OF assms, of "(0, None, text)"] by (simp_all add: finditer_def)

lemma finditer_select_spans:
  "finditer_from STMT_SELECT_RE p =
     (case search_from STMT_SELECT_RE p of
        None \<Rightarrow> []
      | Some (m, q) \<Rightarrow> m # finditer_from STMT_SELECT_RE q)"
  using nonempty_select by (rule finditer_from_unfold)

lemma finditer_delete_spans:
  "finditer_from STMT_DELETE_DUP_RE p =
     (case search_from STMT_DELETE_DUP_RE p of
        None \<Rightarrow> []
      | Some (m, q) \<Rightarrow> m # finditer_from STMT_DELETE_DUP_RE q)"
  using nonempty_delete by (rule finditer_from_unfold)

subsection \<open>The loops as list operations\<close>

lemma delete_loop_map_filter:
  "delete_loop unit src base selects ds =
     List.map_filter (delete_step unit src base selects) ds"
  by (induction ds) (simp_all add: List.map_filter_simps split: option.split)

lemma scan_unit_findings:
  "findings (scan_unit unit) = Some (List.map_filter (unit_step unit) (unit_deletes unit))"
proof -
  have "unit_step unit = delete_step unit (unit_src unit) (unit_base_start unit) (unit_selects unit)"
    by (rule ext) (simp add: unit_step_def)
  then show ?thesis
    by (simp add: scan_unit_def Let_def delete_loop_map_filter unit_selects_def unit_deletes_def)
qed

lemma scan_unit_update:
  "scan_unit unit = unit\<lparr>findings := Some (List.map_filter (unit_step unit) (unit_deletes unit))\<rparr>"
proof -
  have "unit_step unit = delete_step unit (unit_src unit) (unit_base_start unit) (unit_selects unit)"
    by (rule ext) (simp add: unit_step_def)
  then show ?thesis
    by (simp add: scan_unit_def Let_def delete_loop_map_filter unit_selects_def unit_deletes_def)
qed


lemma collect_selects_origin:
  "c \<in> set (collect_selects ms) \<Longrightarrow>
     \<exists>m\<in>set ms. s_start c = m_start m \<and> s_end c = m_end m \<and> s_stmt c = m_text m
       \<and> s_has_distinct c = (search SELECT_DISTINCT_RE (m_text m) \<noteq> None)"
proof (induction ms)
  case Nil
  then show ?case by simp
next
  case (Cons m ms)
  then show ?case
    by (auto simp: Let_def split: option.splits)
qed

lemma collect_selects_sorted:
  assumes "sorted_wrt (\<lambda>a b. m_end a \<le> m_start b) ms"
    and "\<forall>m\<in>set ms. m_start m < m_end m"
  shows "sorted_wrt (\<lambda>a b. s_end a < s_end b) (collect_selects ms)"
  using assms
proof (induction ms)
  case Nil
  then show ?case by simp
next
  case (Cons m ms)
  have later: "m_end m < s_end c" if "c \<in> set (collect_selects ms)" for c
  proof -
    from collect_selects_origin [OF that] obtain m' where "m' \<in> set ms" "s_end c = m_end m'"
      by blast
    with Cons.prems show ?thesis by fastforce
  qed
  from Cons have ih: "sorted_wrt (\<lambda>a b. s_end a < s_end b) (collect_selects ms)" by simp
  show ?case
    using ih later by (auto simp: Let_def split: option.splits)
qed

lemma unit_selects_sorted: "sorted_wrt (\<lambda>a b. s_end a < s_end b) (unit_selects unit)"
  unfolding unit_selects_def
  using finditer_spans [OF nonempty_select] by (intro collect_selects_sorted) blast+

lemma sorted_wrt_less_inj:
  fixes f :: "'a \<Rightarrow> nat"
  shows "sorted_wrt (\<lambda>a b. f a < f b) xs \<Longrightarrow> x \<in> set xs \<Longrightarrow> y \<in> set xs \<Longrightarrow> f x = f y \<Longrightarrow> x = y"
  by (induction xs) auto

lemma unit_selects_end_inj:
  "c \<in> set (unit_selects unit) \<Longrightarrow> c' \<in> set (unit_selects unit) \<Longrightarrow> s_end c = s_end c' \<Longrightarrow> c = c'"
  using sorted_wrt_less_inj [OF unit_selects_sorted] by blast

lemma unit_selects_span:
  assumes "c \<in> set (unit_selects unit)"
  shows "s_start c < s_end c" and "s_end c \<le> length (unit_src unit)"
    and "s_stmt c = take (s_end c - s_start c) (drop (s_start c) (unit_src unit))"
proof -
  from assms have "c \<in> set (collect_selects (finditer STMT_SELECT_RE (unit_src unit)))"
    by (simp add: unit_selects_def)
  from collect_selects_origin [OF this] obtain m
    where m: "m \<in> set (finditer STMT_SELECT_RE (unit_src unit))"
      "s_start c = m_start m" "s_end c = m_end m" "s_stmt c = m_text m" by blast
  from finditer_spans(1) [OF nonempty_select] m show "s_start c < s_end c" by simp
  from finditer_text [OF m(1)] m show "s_end c \<le> length (unit_src unit)"
    "s_stmt c = take (s_end c - s_start c) (drop (s_start c) (unit_src unit))" by simp_all
qed

subsection \<open>The inner loop finds the nearest earlier candidate\<close>

lemma find_prior_None:
  "find_prior selects t ds acc = None \<longleftrightarrow> acc = None \<and> (\<forall>s\<in>set selects. \<not> eligible t ds s)"
  by (induction selects arbitrary: acc) (auto simp: eligible_def split: option.splits)

lemma find_prior_Some:
  "find_prior selects t ds acc = Some p \<Longrightarrow>
     (acc = Some p \<or> (p \<in> set selects \<and> eligible t ds p))
     \<and> (\<forall>s\<in>set selects. eligible t ds s \<longrightarrow> s_end s \<le> s_end p)
     \<and> (\<forall>a. acc = Some a \<longrightarrow> s_end a \<le> s_end p)"
proof (induction selects arbitrary: acc)
  case Nil
  then show ?case by simp
next
  case (Cons s selects)
  let ?acc' = "if s_itab s = t \<and> s_end s < ds
        then (case acc of None \<Rightarrow> Some s | Some p \<Rightarrow> if s_end s > s_end p then Some s else acc)
        else acc"
  from Cons.prems have "find_prior selects t ds ?acc' = Some p" by simp
  from Cons.IH [OF this]
  have ih: "?acc' = Some p \<or> (p \<in> set selects \<and> eligible t ds p)"
    "\<forall>s\<in>set selects. eligible t ds s \<longrightarrow> s_end s \<le> s_end p"
    "\<forall>a. ?acc' = Some a \<longrightarrow> s_end a \<le> s_end p"
    by blast+
  show ?case
  proof (cases "eligible t ds s")
    case False
    with ih show ?thesis by (auto simp: eligible_def)
  next
    case True
    show ?thesis
    proof (cases acc)
      case None
      with True ih show ?thesis by (auto simp: eligible_def)
    next
      case (Some a)
      with True ih show ?thesis
        by (cases "s_end a < s_end s") (auto simp: eligible_def)
    qed
  qed
qed

lemma find_prior_nearest:
  "find_prior selects t ds None = Some p \<Longrightarrow> nearest_prior selects t ds p"
  using find_prior_Some [of selects t ds None p]
  by (auto simp: nearest_prior_def eligible_def)

lemma nearest_prior_found:
  "nearest_prior selects t ds c \<Longrightarrow> \<exists>p. find_prior selects t ds None = Some p \<and> s_end p = s_end c"
proof -
  assume n: "nearest_prior selects t ds c"
  then have "find_prior selects t ds None \<noteq> None"
    by (auto simp: find_prior_None nearest_prior_def eligible_def)
  then obtain p where p: "find_prior selects t ds None = Some p" by blast
  from find_prior_nearest [OF p] n have "s_end p = s_end c"
    by (auto simp: nearest_prior_def intro: antisym)
  with p show ?thesis by blast
qed

lemma nearest_prior_unique:
  assumes "nearest_prior (unit_selects unit) t ds c" and "nearest_prior (unit_selects unit) t ds c'"
  shows "c = c'"
proof -
  from assms have "s_end c = s_end c'"
    by (auto simp: nearest_prior_def intro: antisym)
  with assms show ?thesis
    by (auto simp: nearest_prior_def intro: unit_selects_end_inj)
qed

lemma find_prior_iff_nearest:
  "find_prior (unit_selects unit) t ds None = Some c \<longleftrightarrow> nearest_prior (unit_selects unit) t ds c"
proof
  assume "find_prior (unit_selects unit) t ds None = Some c"
  then show "nearest_prior (unit_selects unit) t ds c" by (rule find_prior_nearest)
next
  assume n: "nearest_prior (unit_selects unit) t ds c"
  from nearest_prior_found [OF n] obtain p
    where p: "find_prior (unit_selects unit) t ds None = Some p" by blast
  from find_prior_nearest [OF p] n have "p = c" by (rule nearest_prior_unique)
  with p show "find_prior (unit_selects unit) t ds None = Some c" by simp
qed

lemma build_finding_delete_span:
  "build_finding_for_pair unit src base t s e ds de = build_finding_for_pair unit src base t s e ds' de'"
  by (simp add: build_finding_for_pair_def)

lemma unit_step_None:
  assumes "d_itab d = None"
  shows "unit_step unit d = None"
proof -
  from assms have "canon_name (coalesce_group d [''data'', ''fs'', ''dyn'', ''plain'']) = None"
    by (simp only: d_itab_def)
  then show ?thesis
    unfolding unit_step_def delete_step_def Let_def by (simp only: option.case)
qed

lemma unit_step_Some:
  assumes "d_itab d = Some t"
  shows "unit_step unit d =
     (case find_prior (unit_selects unit) t (m_start d) None of
        None \<Rightarrow> None
      | Some prior \<Rightarrow>
          if \<not> s_has_distinct prior
          then Some (build_finding_for_pair unit (unit_src unit) (unit_base_start unit) t
                      (s_start prior) (s_end prior) (m_start d) (m_end d))
          else None)"
proof -
  from assms have "canon_name (coalesce_group d [''data'', ''fs'', ''dyn'', ''plain'']) = Some t"
    by (simp only: d_itab_def)
  then show ?thesis
    unfolding unit_step_def delete_step_def Let_def by (simp only: option.case)
qed

lemma unit_step_iff:
  "unit_step unit d = Some f \<longleftrightarrow>
     (\<exists>t c. d_itab d = Some t \<and> nearest_prior (unit_selects unit) t (m_start d) c
        \<and> \<not> s_has_distinct c
        \<and> f = build_finding_for_pair unit (unit_src unit) (unit_base_start unit) t
                (s_start c) (s_end c) (m_start d) (m_end d))"
proof (cases "d_itab d")
  case None
  then show ?thesis by (simp add: unit_step_None)
next
  case (Some t)
  show ?thesis
  proof (cases "find_prior (unit_selects unit) t (m_start d) None")
    case None
    then have "\<not> nearest_prior (unit_selects unit) t (m_start d) c" for c
      by (simp flip: find_prior_iff_nearest)
    with None Some show ?thesis by (simp add: unit_step_Some)
  next
    case (Some p)
    then have "nearest_prior (unit_selects unit) t (m_start d) c \<longleftrightarrow> c = p" for c
      by (auto simp flip: find_prior_iff_nearest)
    with Some \<open>d_itab d = Some t\<close> show ?thesis
      by (auto simp: unit_step_Some)
  qed
qed

lemma unit_step_paired:
  assumes "d_itab d = Some (s_itab c)"
    and "find_prior (unit_selects unit) (s_itab c) (m_start d) None = Some c"
    and "\<not> s_has_distinct c"
  shows "unit_step unit d = Some (anchored unit c)"
proof -
  from assms have "unit_step unit d =
      Some (build_finding_for_pair unit (unit_src unit) (unit_base_start unit) (s_itab c)
              (s_start c) (s_end c) (m_start d) (m_end d))"
    by (simp add: unit_step_Some)
  also have "build_finding_for_pair unit (unit_src unit) (unit_base_start unit) (s_itab c)
              (s_start c) (s_end c) (m_start d) (m_end d) = anchored unit c"
    unfolding anchored_def by (rule build_finding_delete_span)
  finally show ?thesis .
qed

lemma finding_origin:
  assumes "f \<in> set (the (findings (scan_unit unit)))"
  shows "\<exists>c\<in>set (unit_selects unit). \<not> s_has_distinct c \<and> f = anchored unit c"
proof -
  from assms obtain d where "unit_step unit d = Some f"
    by (auto simp: scan_unit_findings List.map_filter_def)
  then obtain t c where c: "nearest_prior (unit_selects unit) t (m_start d) c"
    "\<not> s_has_distinct c"
    "f = build_finding_for_pair unit (unit_src unit) (unit_base_start unit) t
           (s_start c) (s_end c) (m_start d) (m_end d)"
    unfolding unit_step_iff by blast
  from c(1) have "c \<in> set (unit_selects unit)" "s_itab c = t"
    by (simp_all add: nearest_prior_def)
  moreover have "f = anchored unit c"
  proof -
    from c(3) \<open>s_itab c = t\<close>
    have "f = build_finding_for_pair unit (unit_src unit) (unit_base_start unit) (s_itab c)
                (s_start c) (s_end c) (m_start d) (m_end d)" by simp
    also have "\<dots> = anchored unit c"
      unfolding anchored_def by (rule build_finding_delete_span)
    finally show ?thesis .
  qed
  ultimately show ?thesis using c(2) by blast
qed

lemma anchored_fields:
  "starting_line (anchored unit c)
     = Some (unit_base_start unit + (count_nl (take (s_start c) (unit_src unit)) + 1))"
  "ending_line (anchored unit c)
     = Some (unit_base_start unit + (count_nl (take (s_start c) (unit_src unit)) + 1)
             + (count_nl (get_line_snippet (unit_src unit) (s_start c) (s_end c)) + 1))"
  "snippet (anchored unit c)
     = Some (escape_nl (get_line_snippet (unit_src unit) (s_start c) (s_end c)))"
  by (simp_all add: anchored_def build_finding_for_pair_def Let_def)

lemma anchored_constants:
  "issues_type (anchored unit c) = Some ''UseSelectDistinct''"
  "severity (anchored unit c) = Some ''error''"
  "suggestion (anchored unit c)
     = Some ((''* Replace the SELECT that fills '' @ [CHR 0x60]) @ s_itab c
             @ ([CHR 0x60] @ '' with DISTINCT and '' @ ''remove the DELETE step.'' @ [nl, nl]
                @ ''Example rewrite:'' @ [nl]
                @ ''  SELECT DISTINCT ...'' @ [nl]
                @ ''    INTO TABLE '' @ s_itab c @ ''.'' @ [nl]
                @ ''  '' @ [CHR 0x22] @ '' DELETE ADJACENT DUPLICATES FROM '' @ s_itab c
                @ ''.  '' @ [CHR 0x22] @ '' <-- remove'' @ [nl]))"
  by (simp_all add: anchored_def build_finding_for_pair_def Let_def)


subsection \<open>The snippet\<close>

lemma rev_takeWhile_suffix:
  "drop (length xs - length (takeWhile P (rev xs))) xs = rev (takeWhile P (rev xs))"
proof -
  let ?t = "takeWhile P (rev xs)" and ?d = "dropWhile P (rev xs)"
  have "xs = rev (?t @ ?d)" by simp
  also have "\<dots> = rev ?d @ rev ?t" by (rule rev_append)
  finally have xs: "xs = rev ?d @ rev ?t" .
  have "length (?t @ ?d) = length (rev xs)" by simp
  then have "length ?t + length ?d = length xs" by (simp only: length_append length_rev)
  then have n: "length xs - length ?t = length (rev ?d)" by simp
  from xs have "rev ?t = drop (length (rev ?d)) xs"
    by (metis append_eq_conv_conj)
  with n show ?thesis by simp
qed

lemma length_takeWhile_less:
  "x \<in> set xs \<Longrightarrow> \<not> P x \<Longrightarrow> length (takeWhile P xs) < length xs"
  by (induction xs) auto

lemma str_rfind_line_start:
  assumes "s \<le> length text"
  shows "(let i = str_rfind text nl s in if i = - 1 then 0 else i + 1)
           = int (s - length (takeWhile (\<lambda>x. x \<noteq> nl) (rev (take s text))))"
proof (cases "nl \<in> set (take s text)")
  case True
  define k where "k = length (takeWhile (\<lambda>x. x \<noteq> nl) (rev (take s text)))"
  from True have "nl \<in> set (rev (take s text))" by simp
  then have "k < length (rev (take s text))"
    unfolding k_def by (rule length_takeWhile_less) simp
  with assms have k: "k < s" by simp
  have len: "length (take s text) = s" using assms by simp
  have "str_rfind text nl s = int (s - 1 - k)"
    using True by (simp only: str_rfind_def Let_def k_def len if_True)
  moreover have "int (s - 1 - k) \<noteq> - 1" by simp
  moreover have "int (s - 1 - k) + 1 = int (s - k)" using k by linarith
  ultimately show ?thesis by (simp only: Let_def k_def if_False)
next
  case False
  then have "takeWhile (\<lambda>x. x \<noteq> nl) (rev (take s text)) = rev (take s text)"
    by (auto simp: takeWhile_eq_all_conv)
  then have "length (takeWhile (\<lambda>x. x \<noteq> nl) (rev (take s text))) = length (rev (take s text))"
    by (rule arg_cong)
  with assms have "s - length (takeWhile (\<lambda>x. x \<noteq> nl) (rev (take s text))) = 0" by simp
  moreover have "str_rfind text nl s = - 1"
    using False by (simp only: str_rfind_def Let_def if_False)
  ultimately show ?thesis by (simp add: Let_def)
qed

lemma str_find_line_end:
  assumes "e \<le> length text"
  shows "(let i = str_find text nl e in if i = - 1 then int (length text) else i)
           = int (e + length (takeWhile (\<lambda>x. x \<noteq> nl) (drop e text)))"
proof (cases "nl \<in> set (drop e text)")
  case True
  then have "str_find text nl e = int (e + length (takeWhile (\<lambda>x. x \<noteq> nl) (drop e text)))"
    by (simp only: str_find_def Let_def if_True)
  moreover have "int (e + length (takeWhile (\<lambda>x. x \<noteq> nl) (drop e text))) \<noteq> - 1" by simp
  ultimately show ?thesis by (simp only: Let_def if_False)
next
  case False
  then have "takeWhile (\<lambda>x. x \<noteq> nl) (drop e text) = drop e text"
    by (auto simp: takeWhile_eq_all_conv)
  then have "length (takeWhile (\<lambda>x. x \<noteq> nl) (drop e text)) = length (drop e text)"
    by (rule arg_cong)
  with assms have "e + length (takeWhile (\<lambda>x. x \<noteq> nl) (drop e text)) = length text" by simp
  moreover have "str_find text nl e = - 1"
    using False by (simp only: str_find_def Let_def if_False)
  ultimately show ?thesis by (simp add: Let_def)
qed

lemma py_slice_nat:
  assumes "hi \<le> length text"
  shows "py_slice text (int lo) (int hi) = take (hi - lo) (drop lo text)"
proof (cases "lo \<le> length text")
  case True
  with assms show ?thesis by (simp add: py_slice_def slice_index_def Let_def)
next
  case False
  with assms show ?thesis by (simp add: py_slice_def slice_index_def Let_def)
qed

lemma get_line_snippet_span:
  assumes "s \<le> e" and "e \<le> length text"
  shows "get_line_snippet text s e = span_lines text s e"
proof -
  define tw where "tw = takeWhile (\<lambda>x. x \<noteq> nl) (rev (take s text))"
  define a where "a = length tw"
  define post where "post = takeWhile (\<lambda>x. x \<noteq> nl) (drop e text)"
  define b where "b = length post"
  from assms have s: "s \<le> length text" by simp
  have a: "a \<le> s"
    unfolding a_def tw_def
    using length_takeWhile_le [of "\<lambda>x. x \<noteq> nl" "rev (take s text)"] s by simp
  have b: "e + b \<le> length text"
    unfolding b_def post_def
    using length_takeWhile_le [of "\<lambda>x. x \<noteq> nl" "drop e text"] assms by simp
  have "get_line_snippet text s e = py_slice text (int (s - a)) (int (e + b))"
    unfolding get_line_snippet_def
    using str_rfind_line_start [OF s] str_find_line_end [OF assms(2)]
    by (simp only: Let_def a_def tw_def b_def post_def)
  also have "\<dots> = take (e + b - (s - a)) (drop (s - a) text)"
    using b by (rule py_slice_nat)
  also have "drop (s - a) text = rev tw @ drop s text"
  proof -
    have "drop (s - a) text = drop (s - a) (take s text @ drop s text)" by simp
    also have "\<dots> = drop (s - a) (take s text) @ drop (s - a - length (take s text)) (drop s text)"
      by (rule drop_append)
    also have "s - a - length (take s text) = 0" using s by simp
    also have "drop (s - a) (take s text) = rev tw"
      using rev_takeWhile_suffix [of "take s text" "\<lambda>x. x \<noteq> nl"] s
      by (simp add: a_def tw_def)
    finally show ?thesis by simp
  qed
  also have "take (e + b - (s - a)) (rev tw @ drop s text)
      = rev tw @ take ((e - s) + b) (drop s text)"
  proof -
    have "e + b - (s - a) - length (rev tw) = (e - s) + b"
      using a assms(1) by (simp add: a_def)
    moreover have "length (rev tw) \<le> e + b - (s - a)"
      using a assms(1) by (simp add: a_def)
    ultimately show ?thesis by simp
  qed
  also have "take ((e - s) + b) (drop s text) = take (e - s) (drop s text) @ take b (drop e text)"
  proof -
    have "take ((e - s) + b) (drop s text)
        = take (e - s) (drop s text) @ take b (drop (e - s) (drop s text))"
      by (rule take_add)
    moreover have "drop (e - s) (drop s text) = drop e text"
      using assms(1) by simp
    ultimately show ?thesis by (simp only:)
  qed
  also have "take b (drop e text) = post"
    unfolding b_def post_def by (rule takeWhile_eq_take [symmetric])
  finally show ?thesis by (simp add: span_lines_def tw_def post_def)
qed

lemma span_lines_one_line:
  assumes "s \<le> e" and "nl \<notin> set (take (e - s) (drop s text))"
  shows "span_lines text s e = line_at text s"
proof -
  have "drop s text = take (e - s) (drop s text) @ drop e text"
    using assms(1) by (metis append_take_drop_id drop_drop le_add_diff_inverse2)
  then have "takeWhile (\<lambda>x. x \<noteq> nl) (drop s text)
      = takeWhile (\<lambda>x. x \<noteq> nl) (take (e - s) (drop s text) @ drop e text)"
    by simp
  also have "\<dots> = take (e - s) (drop s text) @ takeWhile (\<lambda>x. x \<noteq> nl) (drop e text)"
    using assms(2) by (intro takeWhile_append2) auto
  finally show ?thesis by (simp add: span_lines_def line_at_def)
qed

lemma escape_nl_id: "nl \<notin> set s \<Longrightarrow> escape_nl s = s"
  by (induction s) (auto simp: escape_nl_def)

lemma count_nl_0: "nl \<notin> set s \<Longrightarrow> count_nl s = 0"
  by (induction s) (auto simp: count_nl_def)

lemma line_at_no_nl: "nl \<notin> set (line_at text i)"
  by (auto simp: line_at_def dest: set_takeWhileD)

subsection \<open>The example units, evaluated\<close>

lemma unit_src_example [simp]: "unit_src (example_unit src base) = src"
  by (simp add: unit_src_def example_unit_def)

lemma unit_base_start_example [simp]: "unit_base_start (example_unit src base) = base"
  by (simp add: unit_base_start_def example_unit_def)

lemma ex_src_selects: "collect_selects (finditer STMT_SELECT_RE ex_src) = [ex_select]"
  by code_simp

lemma ex_src_deletes: "finditer STMT_DELETE_DUP_RE ex_src = [ex_delete]"
  by code_simp

lemma ex_src_snippet:
  "get_line_snippet ex_src 0 35 = ''SELECT * FROM t INTO TABLE @lt_tab.''"
  by code_simp

lemma ex_delete_itab: "d_itab ex_delete = Some ''lt_tab''"
  by code_simp

lemma ex_src_findings:
  assumes "code unit = Some ex_src"
  shows "unit_selects unit = [ex_select]" and "unit_deletes unit = [ex_delete]"
    and "unit_step unit ex_delete = Some (anchored unit ex_select)"
    and "findings (scan_unit unit) = Some [anchored unit ex_select]"
proof -
  from assms have src: "unit_src unit = ex_src" by (simp add: unit_src_def)
  show sel: "unit_selects unit = [ex_select]"
    by (simp add: unit_selects_def src ex_src_selects)
  show del: "unit_deletes unit = [ex_delete]"
    by (simp add: unit_deletes_def src ex_src_deletes)
  have "d_itab ex_delete = Some (s_itab ex_select)"
    by (simp add: ex_delete_itab) (simp add: ex_select_def)
  moreover have "find_prior (unit_selects unit) (s_itab ex_select) (m_start ex_delete) None = Some ex_select"
    by (simp add: sel) (simp add: ex_select_def ex_delete_def)
  moreover have "\<not> s_has_distinct ex_select" by (simp add: ex_select_def)
  ultimately show step: "unit_step unit ex_delete = Some (anchored unit ex_select)"
    by (rule unit_step_paired)
  show "findings (scan_unit unit) = Some [anchored unit ex_select]"
    by (simp add: scan_unit_findings del List.map_filter_simps step)
qed

lemma ex_distinct_selects: "unit_selects ex_distinct_unit = [ex_distinct_select]"
  by code_simp

lemma ex_distinct_deletes: "unit_deletes ex_distinct_unit = [ex_distinct_delete]"
  by code_simp



lemma ex_multiline_selects: "unit_selects ex_multiline_unit = [ex_multiline_select]"
  by code_simp

lemma ex_multiline_snippets:
  "map snippet (the (findings (scan_unit ex_multiline_unit)))
     = [Some (''SELECT *'' @ [CHR 0x5C, CHR ''n''] @ ''  FROM t INTO TABLE lt_tab.'')]"
  by code_simp

lemma ex_multiline_line: "line_at ex_multiline_src 0 = ''SELECT *''"
  by code_simp

lemma ex_crossed_lines:
  "map starting_line (the (findings (scan_unit ex_crossed_unit))) = [Some 2, Some 1]"
  by code_simp

lemma ex_lines:
  "map (\<lambda>f. (starting_line f, ending_line f, snippet f)) (the (findings (scan_unit ex_unit)))
     = [(Some 101, Some 102, Some ''SELECT * FROM t INTO TABLE @lt_tab.'')]"
  by code_simp



subsection \<open>Target resolution\<close>































subsection \<open>Batch and single-unit semantics\<close>

text \<open>
  C7. Scanning a list of units returns the scanned units that carry at least one
  finding, in the order of the input; scanning a single unit returns that unit, every
  field but \<open>findings\<close> unchanged, and \<open>findings\<close> is a list, empty when no deduplication
  statement of the unit leads to a finding.
\<close>

theorem scan_rule_batch_and_single:
  "scan_rule_array units =
     map scan_unit (filter (\<lambda>u. findings (scan_unit u) \<noteq> Some []) units)
   \<and> scan_rule_single unit =
       unit\<lparr>findings := Some (List.map_filter (unit_step unit) (unit_deletes unit))\<rparr>
   \<and> (findings (scan_rule_single unit) = Some []
        \<longleftrightarrow> list_all (\<lambda>d. unit_step unit d = None) (unit_deletes unit))"
proof -
  have a: "scan_rule_array units =
      map scan_unit (filter (\<lambda>u. findings (scan_unit u) \<noteq> Some []) units)"
    by (induction units) (simp_all add: Let_def scan_unit_findings)
  have b: "scan_rule_single unit =
      unit\<lparr>findings := Some (List.map_filter (unit_step unit) (unit_deletes unit))\<rparr>"
    by (simp add: scan_rule_single_def scan_unit_update)
  have "List.map_filter f xs = [] \<longleftrightarrow> list_all (\<lambda>d. f d = None) xs" for f :: "rematch \<Rightarrow> Finding option" and xs
    by (induction xs) (simp_all add: List.map_filter_simps split: option.split)
  then have c: "findings (scan_rule_single unit) = Some []
      \<longleftrightarrow> list_all (\<lambda>d. unit_step unit d = None) (unit_deletes unit)"
    by (simp add: scan_rule_single_def scan_unit_findings)
  from a b c show ?thesis by blast
qed

subsection \<open>Totality\<close>


subsection \<open>Pairing\<close>

text \<open>
  C1. For a deduplication match \<open>d\<close> of a unit, the scanner produces a finding exactly
  when \<open>d\<close> has a canonical target \<open>t\<close> and the candidate paired with it (same canonical
  target, end offset before the start of \<open>d\<close>, and the greatest end offset among
  those) exists and has no distinct flag; the finding is then built from that candidate.
  The paired candidate is unique, the findings of the unit are the findings of its
  deduplication matches in order, and so with no such candidate, or with one that has
  the distinct flag, \<open>d\<close> gives no finding.
\<close>

theorem nearest_prior_pairing:
  "(\<forall>t c c'. nearest_prior (unit_selects unit) t (m_start d) c
        \<and> nearest_prior (unit_selects unit) t (m_start d) c' \<longrightarrow> c = c')
   \<and> (\<forall>f. unit_step unit d = Some f \<longleftrightarrow>
        (\<exists>t c. d_itab d = Some t \<and> nearest_prior (unit_selects unit) t (m_start d) c
           \<and> \<not> s_has_distinct c
           \<and> f = build_finding_for_pair unit (unit_src unit) (unit_base_start unit) t
                   (s_start c) (s_end c) (m_start d) (m_end d)))
   \<and> findings (scan_unit unit) = Some (List.map_filter (unit_step unit) (unit_deletes unit))"
proof (intro conjI allI)
  fix t c c'
  show "nearest_prior (unit_selects unit) t (m_start d) c
        \<and> nearest_prior (unit_selects unit) t (m_start d) c' \<longrightarrow> c = c'"
    using nearest_prior_unique by blast
next
  fix f
  show "unit_step unit d = Some f \<longleftrightarrow>
        (\<exists>t c. d_itab d = Some t \<and> nearest_prior (unit_selects unit) t (m_start d) c
           \<and> \<not> s_has_distinct c
           \<and> f = build_finding_for_pair unit (unit_src unit) (unit_base_start unit) t
                   (s_start c) (s_end c) (m_start d) (m_end d))"
    by (rule unit_step_iff)
next
  show "findings (scan_unit unit) = Some (List.map_filter (unit_step unit) (unit_deletes unit))"
    by (rule scan_unit_findings)
qed

theorem nearest_prior_pairing_witness:
  "ex_delete \<in> set (unit_deletes ex_unit)
   \<and> d_itab ex_delete = Some ''lt_tab''
   \<and> nearest_prior (unit_selects ex_unit) ''lt_tab'' (m_start ex_delete) ex_select
   \<and> \<not> s_has_distinct ex_select
   \<and> unit_step ex_unit ex_delete =
       Some (build_finding_for_pair ex_unit (unit_src ex_unit) (unit_base_start ex_unit)
               ''lt_tab'' (s_start ex_select) (s_end ex_select)
               (m_start ex_delete) (m_end ex_delete))"
proof -
  have code: "code ex_unit = Some ex_src" by (simp add: ex_unit_def example_unit_def)
  note ex = ex_src_findings [OF code]
  have a: "ex_delete \<in> set (unit_deletes ex_unit)" by (simp add: ex(2))
  have b: "d_itab ex_delete = Some ''lt_tab''" by (rule ex_delete_itab)
  have c: "nearest_prior (unit_selects ex_unit) ''lt_tab'' (m_start ex_delete) ex_select"
    by (simp add: ex(1) nearest_prior_def) (simp add: ex_select_def ex_delete_def)
  have d: "\<not> s_has_distinct ex_select" by (simp add: ex_select_def)
  from nearest_prior_pairing [of ex_unit ex_delete] b c d
  have "unit_step ex_unit ex_delete =
       Some (build_finding_for_pair ex_unit (unit_src ex_unit) (unit_base_start ex_unit)
               ''lt_tab'' (s_start ex_select) (s_end ex_select)
               (m_start ex_delete) (m_end ex_delete))"
    by blast
  with a b c d show ?thesis by blast
qed

text \<open>
  C5. A candidate whose statement text holds a match of \<^verbatim>\<open>SELECT_DISTINCT_RE\<close> never
  yields a finding: a deduplication match on the same canonical target that is paired
  with it produces none.
\<close>

theorem distinct_suppresses:
  assumes "c \<in> set (unit_selects unit)"
    and "search SELECT_DISTINCT_RE (s_stmt c) \<noteq> None"
    and "d_itab d = Some (s_itab c)"
    and "nearest_prior (unit_selects unit) (s_itab c) (m_start d) c"
  shows "unit_step unit d = None"
proof -
  from assms(1) have "c \<in> set (collect_selects (finditer STMT_SELECT_RE (unit_src unit)))"
    by (simp add: unit_selects_def)
  from collect_selects_origin [OF this] assms(2) have "s_has_distinct c" by auto
  moreover from assms(4) have "find_prior (unit_selects unit) (s_itab c) (m_start d) None = Some c"
    by (simp add: find_prior_iff_nearest)
  ultimately show ?thesis using assms(3) by (simp add: unit_step_Some)
qed

theorem distinct_suppresses_witness:
  "ex_distinct_select \<in> set (unit_selects ex_distinct_unit)
   \<and> search SELECT_DISTINCT_RE (s_stmt ex_distinct_select) \<noteq> None
   \<and> d_itab ex_distinct_delete = Some (s_itab ex_distinct_select)
   \<and> nearest_prior (unit_selects ex_distinct_unit) (s_itab ex_distinct_select)
        (m_start ex_distinct_delete) ex_distinct_select
   \<and> ex_distinct_delete \<in> set (unit_deletes ex_distinct_unit)
   \<and> unit_step ex_distinct_unit ex_distinct_delete = None
   \<and> findings (scan_unit ex_distinct_unit) = Some []"
proof -
  have a: "ex_distinct_select \<in> set (unit_selects ex_distinct_unit)"
    by (simp add: ex_distinct_selects)
  have b: "search SELECT_DISTINCT_RE (s_stmt ex_distinct_select) \<noteq> None"
    by code_simp
  have c: "d_itab ex_distinct_delete = Some (s_itab ex_distinct_select)"
    by code_simp
  have d: "nearest_prior (unit_selects ex_distinct_unit) (s_itab ex_distinct_select)
        (m_start ex_distinct_delete) ex_distinct_select"
    by (simp add: ex_distinct_selects nearest_prior_def)
      (simp add: ex_distinct_select_def ex_distinct_delete_def)
  have e: "ex_distinct_delete \<in> set (unit_deletes ex_distinct_unit)"
    by (simp add: ex_distinct_deletes)
  have f: "unit_step ex_distinct_unit ex_distinct_delete = None"
    using a b c d by (rule distinct_suppresses)
  then have "findings (scan_unit ex_distinct_unit) = Some []"
    by (simp add: scan_unit_findings ex_distinct_deletes List.map_filter_simps)
  with a b c d e f show ?thesis by blast
qed




text \<open>
  C10. The findings of a unit are the findings of those deduplication matches that
  produce one, in ascending order of the start offset of the deduplication match. (The
  anchored candidates need not be in that order: the example after the theorem has its findings on
  lines 2 and 1, in this order.)
\<close>

theorem findings_in_delete_order:
  "\<exists>ds. findings (scan_unit unit) = Some (map (the \<circ> unit_step unit) ds)
      \<and> ds = filter (\<lambda>d. unit_step unit d \<noteq> None) (unit_deletes unit)
      \<and> sorted_wrt (\<lambda>a b. m_start a < m_start b) ds"
proof -
  let ?ds = "filter (\<lambda>d. unit_step unit d \<noteq> None) (unit_deletes unit)"
  have spans: "\<forall>m\<in>set (unit_deletes unit). m_start m < m_end m"
    "sorted_wrt (\<lambda>a b. m_end a \<le> m_start b) (unit_deletes unit)"
    unfolding unit_deletes_def using finditer_spans [OF nonempty_delete] by blast+
  have "sorted_wrt (\<lambda>a b. m_start a < m_start b) ms"
    if "\<forall>m\<in>set ms. m_start m < m_end m" "sorted_wrt (\<lambda>a b. m_end a \<le> m_start b) ms"
    for ms :: "rematch list"
    using that by (induction ms) fastforce+
  with spans have "sorted_wrt (\<lambda>a b. m_start a < m_start b) (unit_deletes unit)" by blast
  then have "sorted_wrt (\<lambda>a b. m_start a < m_start b) ?ds" by (rule sorted_wrt_filter)
  moreover have "findings (scan_unit unit) = Some (map (the \<circ> unit_step unit) ?ds)"
    by (simp add: scan_unit_findings List.map_filter_def)
  ultimately show ?thesis by blast
qed

theorem findings_in_delete_order_witness:
  "map starting_line (the (findings (scan_unit ex_crossed_unit))) = [Some 2, Some 1]
   \<and> findings (scan_unit ex_crossed_unit)
       = Some (map (the \<circ> unit_step ex_crossed_unit)
                (filter (\<lambda>d. unit_step ex_crossed_unit d \<noteq> None) (unit_deletes ex_crossed_unit)))
   \<and> sorted_wrt (\<lambda>a b. m_start a < m_start b)
        (filter (\<lambda>d. unit_step ex_crossed_unit d \<noteq> None) (unit_deletes ex_crossed_unit))"
  using findings_in_delete_order [of ex_crossed_unit] ex_crossed_lines by blast

subsection \<open>Location and snippet of a finding\<close>

text \<open>
  C3, as amended. Every finding is anchored to a candidate \<open>c\<close> of the unit, and its
  snippet is the text from the start of the physical line that holds the start offset
  of \<open>c\<close> up to the first newline at or after the end offset of \<open>c\<close> (or the end of the
  text), with each newline replaced by a backslash and the letter n. When the statement
  of \<open>c\<close> holds no newline, that is the single physical line of its start offset.
\<close>

theorem snippet_spans_statement_lines:
  assumes "f \<in> set (the (findings (scan_unit unit)))"
  shows "\<exists>c\<in>set (unit_selects unit). f = anchored unit c
     \<and> snippet f = Some (escape_nl (span_lines (unit_src unit) (s_start c) (s_end c)))
     \<and> (nl \<notin> set (s_stmt c) \<longrightarrow> snippet f = Some (line_at (unit_src unit) (s_start c)))"
proof -
  from finding_origin [OF assms] obtain c
    where c: "c \<in> set (unit_selects unit)" "f = anchored unit c" by blast
  note sp = unit_selects_span [OF c(1)]
  from sp have g: "get_line_snippet (unit_src unit) (s_start c) (s_end c)
      = span_lines (unit_src unit) (s_start c) (s_end c)"
    by (intro get_line_snippet_span) simp_all
  then have a: "snippet f = Some (escape_nl (span_lines (unit_src unit) (s_start c) (s_end c)))"
    by (simp add: c(2) anchored_fields)
  have b: "snippet f = Some (line_at (unit_src unit) (s_start c))" if "nl \<notin> set (s_stmt c)"
  proof -
    from that sp have "span_lines (unit_src unit) (s_start c) (s_end c)
        = line_at (unit_src unit) (s_start c)"
      by (intro span_lines_one_line) simp_all
    with a show ?thesis by (simp add: escape_nl_id line_at_no_nl)
  qed
  from c a b show ?thesis by blast
qed

theorem snippet_spans_statement_lines_witness:
  "anchored ex_unit ex_select \<in> set (the (findings (scan_unit ex_unit)))
   \<and> nl \<notin> set (s_stmt ex_select)
   \<and> snippet (anchored ex_unit ex_select)
       = Some (escape_nl (span_lines (unit_src ex_unit) (s_start ex_select) (s_end ex_select)))
   \<and> snippet (anchored ex_unit ex_select)
       = Some (line_at (unit_src ex_unit) (s_start ex_select))"
proof -
  have code: "code ex_unit = Some ex_src" by (simp add: ex_unit_def example_unit_def)
  note ex = ex_src_findings [OF code]
  have a: "anchored ex_unit ex_select \<in> set (the (findings (scan_unit ex_unit)))"
    by (simp add: ex(4))
  have b: "nl \<notin> set (s_stmt ex_select)" by (simp add: ex_select_def)
  from snippet_spans_statement_lines [OF a] obtain c
    where "c \<in> set (unit_selects ex_unit)"
      and c: "snippet (anchored ex_unit ex_select)
          = Some (escape_nl (span_lines (unit_src ex_unit) (s_start c) (s_end c)))"
        "nl \<notin> set (s_stmt c) \<longrightarrow>
           snippet (anchored ex_unit ex_select) = Some (line_at (unit_src ex_unit) (s_start c))"
    by blast
  then have "c = ex_select" by (simp add: ex(1))
  with a b c show ?thesis by blast
qed

text \<open>
  The claim as stated fails on a statement that spans two lines: the snippet holds both
  lines, not the one line of the start offset.
\<close>

theorem snippet_single_line_counterexample:
  "\<not> (\<forall>f\<in>set (the (findings (scan_unit ex_multiline_unit))).
        \<exists>c\<in>set (unit_selects ex_multiline_unit).
          snippet f = Some (line_at (unit_src ex_multiline_unit) (s_start c)))"
proof
  assume h: "\<forall>f\<in>set (the (findings (scan_unit ex_multiline_unit))).
        \<exists>c\<in>set (unit_selects ex_multiline_unit).
          snippet f = Some (line_at (unit_src ex_multiline_unit) (s_start c))"
  from ex_multiline_snippets obtain f
    where f: "f \<in> set (the (findings (scan_unit ex_multiline_unit)))"
      "snippet f = Some (''SELECT *'' @ [CHR 0x5C, CHR ''n''] @ ''  FROM t INTO TABLE lt_tab.'')"
    by (auto simp: map_eq_Cons_conv)
  from h f(1) have "snippet f = Some (line_at (unit_src ex_multiline_unit) (s_start ex_multiline_select))"
    by (simp add: ex_multiline_selects)
  also have "s_start ex_multiline_select = 0" by (simp add: ex_multiline_select_def)
  also have "unit_src ex_multiline_unit = ex_multiline_src" by (simp add: ex_multiline_unit_def)
  finally show False using f(2) by (simp add: ex_multiline_line)
qed

text \<open>
  C4, as amended. Every finding is anchored to a candidate \<open>c\<close> of the unit; its starting
  line is the starting line offset of the unit plus one plus the number of newlines
  before the start offset of \<open>c\<close>, and its ending line is the starting line plus the
  number of newlines in the snippet (taken before they are escaped) plus one. When the
  statement of \<open>c\<close> holds no newline the ending line is the starting line plus one.
\<close>

theorem finding_line_numbers:
  assumes "f \<in> set (the (findings (scan_unit unit)))"
  shows "\<exists>c\<in>set (unit_selects unit). f = anchored unit c
     \<and> starting_line f
         = Some (unit_base_start unit + (1 + count_nl (take (s_start c) (unit_src unit))))
     \<and> ending_line f
         = Some (the (starting_line f)
                 + count_nl (get_line_snippet (unit_src unit) (s_start c) (s_end c)) + 1)
     \<and> (nl \<notin> set (s_stmt c) \<longrightarrow> ending_line f = Some (the (starting_line f) + 1))"
proof -
  from finding_origin [OF assms] obtain c
    where c: "c \<in> set (unit_selects unit)" "f = anchored unit c" by blast
  note sp = unit_selects_span [OF c(1)]
  have a: "starting_line f
      = Some (unit_base_start unit + (1 + count_nl (take (s_start c) (unit_src unit))))"
    by (simp add: c(2) anchored_fields)
  have b: "ending_line f = Some (the (starting_line f)
      + count_nl (get_line_snippet (unit_src unit) (s_start c) (s_end c)) + 1)"
    by (simp add: c(2) anchored_fields)
  have d: "ending_line f = Some (the (starting_line f) + 1)" if "nl \<notin> set (s_stmt c)"
  proof -
    from sp have "get_line_snippet (unit_src unit) (s_start c) (s_end c)
        = span_lines (unit_src unit) (s_start c) (s_end c)"
      by (intro get_line_snippet_span) simp_all
    also from that sp have "\<dots> = line_at (unit_src unit) (s_start c)"
      by (intro span_lines_one_line) simp_all
    finally have "count_nl (get_line_snippet (unit_src unit) (s_start c) (s_end c)) = 0"
      by (simp add: count_nl_0 line_at_no_nl)
    with b show ?thesis by simp
  qed
  from c a b d show ?thesis by blast
qed

theorem finding_line_numbers_witness:
  "anchored ex_unit ex_select \<in> set (the (findings (scan_unit ex_unit)))
   \<and> nl \<notin> set (s_stmt ex_select)
   \<and> starting_line (anchored ex_unit ex_select)
       = Some (unit_base_start ex_unit
               + (1 + count_nl (take (s_start ex_select) (unit_src ex_unit))))
   \<and> ending_line (anchored ex_unit ex_select)
       = Some (the (starting_line (anchored ex_unit ex_select)) + 1)"
proof -
  have code: "code ex_unit = Some ex_src" by (simp add: ex_unit_def example_unit_def)
  note ex = ex_src_findings [OF code]
  have a: "anchored ex_unit ex_select \<in> set (the (findings (scan_unit ex_unit)))"
    by (simp add: ex(4))
  have b: "nl \<notin> set (s_stmt ex_select)" by (simp add: ex_select_def)
  from finding_line_numbers [OF a] obtain c
    where "c \<in> set (unit_selects ex_unit)"
      and c: "starting_line (anchored ex_unit ex_select)
          = Some (unit_base_start ex_unit + (1 + count_nl (take (s_start c) (unit_src ex_unit))))"
        "nl \<notin> set (s_stmt c) \<longrightarrow>
           ending_line (anchored ex_unit ex_select)
             = Some (the (starting_line (anchored ex_unit ex_select)) + 1)"
    by blast
  then have "c = ex_select" by (simp add: ex(1))
  with a b c show ?thesis by blast
qed

text \<open>
  The claim as stated fails on the example of the specification: the snippet holds no
  newline, the starting line is 101 and the ending line is 102, not 101.
\<close>

theorem ending_line_counterexample:
  "\<not> (\<forall>f\<in>set (the (findings (scan_unit ex_unit))).
        ending_line f = Some (the (starting_line f) + count_nl (the (snippet f))))
   \<and> \<not> (\<forall>f\<in>set (the (findings (scan_unit ex_unit))).
        \<exists>c\<in>set (unit_selects ex_unit).
          ending_line f = Some (the (starting_line f)
            + count_nl (get_line_snippet (unit_src ex_unit) (s_start c) (s_end c))))"
proof -
  have code: "code ex_unit = Some ex_src" by (simp add: ex_unit_def example_unit_def)
  note ex = ex_src_findings [OF code]
  from ex_lines obtain f
    where f: "f \<in> set (the (findings (scan_unit ex_unit)))"
      "starting_line f = Some 101" "ending_line f = Some 102"
      "snippet f = Some ''SELECT * FROM t INTO TABLE @lt_tab.''"
    by (auto simp: map_eq_Cons_conv)
  have n: "count_nl ''SELECT * FROM t INTO TABLE @lt_tab.'' = 0" by (simp add: count_nl_def)
  have s: "get_line_snippet (unit_src ex_unit) (s_start ex_select) (s_end ex_select)
      = ''SELECT * FROM t INTO TABLE @lt_tab.''"
    using ex_src_snippet by (simp add: ex_unit_def ex_select_def)
  have 1: "\<not> (\<forall>f\<in>set (the (findings (scan_unit ex_unit))).
        ending_line f = Some (the (starting_line f) + count_nl (the (snippet f))))"
    using f n by force
  have 2: "\<not> (\<forall>f\<in>set (the (findings (scan_unit ex_unit))).
        \<exists>c\<in>set (unit_selects ex_unit).
          ending_line f = Some (the (starting_line f)
            + count_nl (get_line_snippet (unit_src ex_unit) (s_start c) (s_end c))))"
    using f n s by (force simp: ex(1))
  from 1 2 show ?thesis by blast
qed

subsection \<open>The example of the specification\<close>

text \<open>
  C2. A unit whose source text is the line \<^verbatim>\<open>SELECT * FROM t INTO TABLE @lt_tab.\<close>
  followed by the line \<^verbatim>\<open>DELETE ADJACENT DUPLICATES FROM lt_tab COMPARING ALL FIELDS.\<close>,
  with starting line offset 100, has exactly one finding: its classification is
  \<^verbatim>\<open>UseSelectDistinct\<close>, its severity \<^verbatim>\<open>error\<close>, its starting line 101, its snippet the
  text of the first line, and its suggestion contains \<^verbatim>\<open>lt_tab\<close>.
\<close>

theorem example_scenario:
  assumes "code unit = Some (''SELECT * FROM t INTO TABLE @lt_tab.'' @ [nl]
             @ ''DELETE ADJACENT DUPLICATES FROM lt_tab COMPARING ALL FIELDS.'')"
    and "start_line unit = Some 100"
  shows "\<exists>f. findings (scan_unit unit) = Some [f]
     \<and> issues_type f = Some ''UseSelectDistinct''
     \<and> severity f = Some ''error''
     \<and> starting_line f = Some 101
     \<and> snippet f = Some ''SELECT * FROM t INTO TABLE @lt_tab.''
     \<and> (\<exists>p s. suggestion f = Some (p @ ''lt_tab'' @ s))"
proof -
  from assms(1) have code: "code unit = Some ex_src" by (simp add: ex_src_def)
  then have src: "unit_src unit = ex_src" by (simp add: unit_src_def)
  from assms(2) have base: "unit_base_start unit = 100" by (simp add: unit_base_start_def)
  let ?f = "anchored unit ex_select"
  have 1: "findings (scan_unit unit) = Some [?f]" using code by (rule ex_src_findings)
  have 2: "starting_line ?f = Some 101"
    by (simp add: anchored_fields base) (simp add: ex_select_def count_nl_def)
  have "snippet ?f = Some (escape_nl (get_line_snippet ex_src 0 35))"
    by (simp add: anchored_fields src) (simp add: ex_select_def)
  then have 3: "snippet ?f = Some ''SELECT * FROM t INTO TABLE @lt_tab.''"
    by (simp add: ex_src_snippet escape_nl_def)
  have "s_itab ex_select = ''lt_tab''" by (simp add: ex_select_def)
  then have 4: "\<exists>p s. suggestion ?f = Some (p @ ''lt_tab'' @ s)"
    unfolding anchored_constants by (intro exI) (simp only:)
  from 1 2 3 4 anchored_constants(1,2) [of unit ex_select] show ?thesis by blast
qed

theorem example_scenario_witness:
  "code ex_unit = Some (''SELECT * FROM t INTO TABLE @lt_tab.'' @ [nl]
             @ ''DELETE ADJACENT DUPLICATES FROM lt_tab COMPARING ALL FIELDS.'')
   \<and> start_line ex_unit = Some 100
   \<and> (\<exists>f. findings (scan_unit ex_unit) = Some [f]
     \<and> issues_type f = Some ''UseSelectDistinct''
     \<and> severity f = Some ''error''
     \<and> starting_line f = Some 101
     \<and> snippet f = Some ''SELECT * FROM t INTO TABLE @lt_tab.''
     \<and> (\<exists>p s. suggestion f = Some (p @ ''lt_tab'' @ s)))"
proof -
  have a: "code ex_unit = Some (''SELECT * FROM t INTO TABLE @lt_tab.'' @ [nl]
             @ ''DELETE ADJACENT DUPLICATES FROM lt_tab COMPARING ALL FIELDS.'')"
    by (simp add: ex_unit_def example_unit_def ex_src_def)
  have b: "start_line ex_unit = Some 100"
    by (simp add: ex_unit_def example_unit_def)
  from a b example_scenario [OF a b] show ?thesis by blast
qed

subsection \<open>Spellings of a target\<close>



end
